theory Spec2Isabelle
  imports Main "HOL-Library.Multiset" "HOL-Library.AList"
begin

section \<open>Python strings\<close>

text \<open>
  A Python \<open>str\<close> is modelled as a \<open>string\<close>: a list of characters, each one a code
  point below 256 (Latin-1). On that range the character classes of \<open>re\<close> and the
  methods of \<open>str\<close> are the following: \<open>\s\<close> and \<open>str.strip\<close> use the same set of
  white-space characters, \<open>\d\<close> is \<open>0\<close> to \<open>9\<close>, and \<open>str.lower\<close> maps \<open>A\<close> to \<open>Z\<close> and
  the upper-case letters \<open>0xC0\<close> to \<open>0xDE\<close> (without the multiplication sign
  \<open>0xD7\<close>) to the letter 32 code points above.
\<close>

definition is_space :: "char \<Rightarrow> bool" where
  "is_space c = (of_char c \<in> {9, 10, 11, 12, 13, 28, 29, 30, 31, 32, 133, 160 :: nat})"

definition is_digit :: "char \<Rightarrow> bool" where
  "is_digit c = (48 \<le> (of_char c :: nat) \<and> (of_char c :: nat) \<le> 57)"

definition lower_char :: "char \<Rightarrow> char" where
  "lower_char c = (let n = of_char c :: nat in
     if (65 \<le> n \<and> n \<le> 90) \<or> (192 \<le> n \<and> n \<le> 222 \<and> n \<noteq> 215)
     then char_of (n + 32) else c)"

text \<open>\<open>s.lower()\<close>\<close>

definition lower :: "string \<Rightarrow> string" where
  "lower s = map lower_char s"

text \<open>\<open>s.strip()\<close>\<close>

definition strip :: "string \<Rightarrow> string" where
  "strip s = rev (dropWhile is_space (rev (dropWhile is_space s)))"

text \<open>\<open>s.startswith(p)\<close>\<close>

definition startswith :: "string \<Rightarrow> string \<Rightarrow> bool" where
  "startswith s p = (take (length p) s = p)"

text \<open>\<open>sub in s\<close>: \<open>sub\<close> occurs in \<open>s\<close> as a contiguous piece.\<close>

fun py_in :: "string \<Rightarrow> string \<Rightarrow> bool" where
  "py_in sub [] = (sub = [])"
| "py_in sub (c # cs) = (startswith (c # cs) sub \<or> py_in sub cs)"

text \<open>\<open>int(s)\<close> on a string of decimal digits; Python's integers are unbounded.\<close>

definition int_of_digits :: "string \<Rightarrow> int" where
  "int_of_digits s = foldl (\<lambda>n c. 10 * n + (int (of_char c) - 48)) 0 s"

section \<open>The data model (\<open>models.py\<close>)\<close>

record EquipmentEntry =
  country :: string
  equipment_type :: string
  status :: string
  url :: "string option"
  date_recorded :: "string option"

section \<open>Regular expressions as Python's \<open>re\<close> runs them\<close>

text \<open>
  The patterns of the program use character classes, literals, sequences, alternatives,
  greedy and lazy repetition, the anchor \<open>^\<close> and numbered groups. \<open>run r st\<close> lists
  every way \<open>r\<close> matches from the state \<open>st\<close> (the position in the subject, the rest of
  the subject from there, and the groups captured so far), in the order in which the
  backtracking matcher tries them: the first element is the match \<open>re\<close> reports.
\<close>

datatype re = Cls "char \<Rightarrow> bool" | Bol | Eps | Seq re re | Alt re re
  | Star re | LazyStar re | Grp nat re

type_synonym groups = "nat \<rightharpoonup> string"
type_synonym mstate = "nat \<times> string \<times> groups"

function run :: "re \<Rightarrow> mstate \<Rightarrow> mstate list" where
  "run (Cls P) (i, s, g) =
     (case s of [] \<Rightarrow> [] | c # cs \<Rightarrow> if P c then [(Suc i, cs, g)] else [])"
| "run Bol (i, s, g) = (if i = 0 then [(i, s, g)] else [])"
| "run Eps (i, s, g) = [(i, s, g)]"
| "run (Seq a b) (i, s, g) = concat (map (run b) (run a (i, s, g)))"
| "run (Alt a b) (i, s, g) = run a (i, s, g) @ run b (i, s, g)"
| "run (Star r) (i, s, g) =
     concat (map (\<lambda>st. if length (fst (snd st)) < length s then run (Star r) st else [])
                 (run r (i, s, g))) @ [(i, s, g)]"
| "run (LazyStar r) (i, s, g) =
     (i, s, g) #
     concat (map (\<lambda>st. if length (fst (snd st)) < length s then run (LazyStar r) st else [])
                 (run r (i, s, g)))"
| "run (Grp n r) (i, s, g) =
     map (\<lambda>st. (fst st, fst (snd st),
                 (snd (snd st))(n \<mapsto> take (length s - length (fst (snd st))) s)))
         (run r (i, s, g))"
  by pat_completeness auto
termination
  by (relation "measures [\<lambda>(r, st). size r, \<lambda>(r, st). length (fst (snd st))]") auto

text \<open>\<open>r+\<close> and \<open>r+?\<close>\<close>

definition Plus :: "re \<Rightarrow> re" where
  "Plus r = Seq r (Star r)"

definition LazyPlus :: "re \<Rightarrow> re" where
  "LazyPlus r = Seq r (LazyStar r)"

fun seqs :: "re list \<Rightarrow> re" where
  "seqs [] = Eps"
| "seqs [r] = r"
| "seqs (r # rs) = Seq r (seqs rs)"

fun alts :: "re list \<Rightarrow> re" where
  "alts [] = Cls (\<lambda>c. False)"
| "alts [r] = r"
| "alts (r # rs) = Alt r (alts rs)"

text \<open>A literal, and a literal under \<open>re.IGNORECASE\<close>.\<close>

fun lit :: "string \<Rightarrow> re" where
  "lit [] = Eps"
| "lit (c # cs) = Seq (Cls (\<lambda>x. x = c)) (lit cs)"

fun lit_ci :: "string \<Rightarrow> re" where
  "lit_ci [] = Eps"
| "lit_ci (c # cs) = Seq (Cls (\<lambda>x. lower_char x = lower_char c)) (lit_ci cs)"

text \<open>\<open>m.group(n)\<close> of a match whose group \<open>n\<close> took part in it.\<close>

definition group :: "groups \<Rightarrow> nat \<Rightarrow> string" where
  "group g n = (case g n of None \<Rightarrow> [] | Some s \<Rightarrow> s)"

text \<open>\<open>re.match(r, s)\<close>: the groups of the first match at the start of \<open>s\<close>.\<close>

definition re_match :: "re \<Rightarrow> string \<Rightarrow> groups option" where
  "re_match r s = (case run r (0, s, Map.empty) of [] \<Rightarrow> None | st # _ \<Rightarrow> Some (snd (snd st)))"

text \<open>\<open>re.search(r, s)\<close>: the first match at the leftmost position that has one.\<close>

fun search_from :: "re \<Rightarrow> nat \<Rightarrow> string \<Rightarrow> groups option" where
  "search_from r i [] =
     (case run r (i, [], Map.empty) of [] \<Rightarrow> None | st # _ \<Rightarrow> Some (snd (snd st)))"
| "search_from r i (c # cs) =
     (case run r (i, c # cs, Map.empty) of [] \<Rightarrow> search_from r (Suc i) cs
      | st # _ \<Rightarrow> Some (snd (snd st)))"

definition re_search :: "re \<Rightarrow> string \<Rightarrow> groups option" where
  "re_search r s = search_from r 0 s"

text \<open>
  \<open>re.finditer(r, s)\<close>: the matches from left to right, each search starting where the
  match before it ended. A match is its span (start, end) and its groups. After an empty
  match the scan moves one character on; the patterns given to \<open>finditer\<close> here match no
  empty string.
\<close>

function finditer_from :: "re \<Rightarrow> nat \<Rightarrow> string \<Rightarrow> ((nat \<times> nat) \<times> groups) list" where
  "finditer_from r i s =
     (case run r (i, s, Map.empty) of
        [] \<Rightarrow> (case s of [] \<Rightarrow> [] | c # cs \<Rightarrow> finditer_from r (Suc i) cs)
      | st # _ \<Rightarrow>
          (if length (fst (snd st)) < length s
           then ((i, fst st), snd (snd st)) # finditer_from r (fst st) (fst (snd st))
           else ((i, fst st), snd (snd st)) #
                (case s of [] \<Rightarrow> [] | c # cs \<Rightarrow> finditer_from r (Suc i) cs)))"
  by pat_completeness auto
termination
  by (relation "measure (\<lambda>(r, i, s). length s)") auto

definition finditer :: "re \<Rightarrow> string \<Rightarrow> ((nat \<times> nat) \<times> groups) list" where
  "finditer r s = finditer_from r 0 s"

text \<open>\<open>len(re.findall(r, s))\<close> for a pattern without groups.\<close>

definition findall_count :: "re \<Rightarrow> string \<Rightarrow> nat" where
  "findall_count r s = length (finditer r s)"

section \<open>\<open>OryxScraper.parse_equipment_line\<close> (\<open>oryx_wat_scraper/client.py\<close>)\<close>

text \<open>\<open>^(\d+)\s+(.+?)\s*:\<close>\<close>

definition item_pattern :: re where
  "item_pattern = seqs [Bol, Grp 1 (Plus (Cls is_digit)), Plus (Cls is_space),
     Grp 2 (LazyPlus (Cls (\<lambda>c. c \<noteq> CHR 0x0A))), Star (Cls is_space), lit '':'']"

text \<open>The four status words, \<open>(destroyed|captured|abandoned|damaged)\<close> under \<open>re.IGNORECASE\<close>.\<close>

definition status_words :: "string list" where
  "status_words = [''destroyed'', ''captured'', ''abandoned'', ''damaged'']"

definition status_alt :: re where
  "status_alt = alts (map lit_ci status_words)"

text \<open>
  \<open><a[^>]*href="([^"]*)"[^>]*>\((\d+),\s*(destroyed|captured|abandoned|damaged)\)</a>\<close>
  with \<open>re.IGNORECASE\<close>
\<close>

definition link_pattern :: re where
  "link_pattern = seqs [lit_ci ''<a'', Star (Cls (\<lambda>c. c \<noteq> CHR ''>'')), lit_ci ''href=\"'',
     Grp 1 (Star (Cls (\<lambda>c. c \<noteq> CHR 0x22))), lit_ci ''\"'', Star (Cls (\<lambda>c. c \<noteq> CHR ''>'')),
     lit_ci ''>('', Grp 2 (Plus (Cls is_digit)), lit_ci '','', Star (Cls is_space),
     Grp 3 status_alt, lit_ci '')</a>'']"

text \<open>
  \<open>\((\d+(?:\s*,\s*\d+)*)\s*,\s*(destroyed|captured|abandoned|damaged)\)\<close>
  with \<open>re.IGNORECASE\<close>
\<close>

definition status_pattern :: re where
  "status_pattern = seqs [lit_ci ''('',
     Grp 1 (Seq (Plus (Cls is_digit))
                (Star (seqs [Star (Cls is_space), lit_ci '','', Star (Cls is_space),
                             Plus (Cls is_digit)]))),
     Star (Cls is_space), lit_ci '','', Star (Cls is_space), Grp 2 status_alt, lit_ci '')'']"

text \<open>\<open>\d+\<close>\<close>

definition number_pattern :: re where
  "number_pattern = Plus (Cls is_digit)"

text \<open>
  The three blocks of the function body that fill \<open>entries\<close>. The first is the loop over
  the links of \<open>html_line\<close>; it is run when \<open>html_line\<close> is neither \<open>None\<close> nor empty.
\<close>

definition link_entries :: "string \<Rightarrow> string \<Rightarrow> string \<Rightarrow> string \<Rightarrow> EquipmentEntry list" where
  "link_entries current_date ctry equipment_name html_line =
     map (\<lambda>link_match.
            \<lparr>country = lower ctry, equipment_type = equipment_name,
             status = lower (group (snd link_match) 3),
             url = (if startswith (group (snd link_match) 1) ''http''
                    then Some (group (snd link_match) 1) else None),
             date_recorded = Some current_date\<rparr>)
         (finditer link_pattern html_line)"

text \<open>The loop over the status indicators of the text of the line.\<close>

definition text_entries :: "string \<Rightarrow> string \<Rightarrow> string \<Rightarrow> string \<Rightarrow> EquipmentEntry list" where
  "text_entries current_date ctry equipment_name line =
     concat (map (\<lambda>status_match.
            replicate (findall_count number_pattern (group (snd status_match) 1))
              \<lparr>country = lower ctry, equipment_type = equipment_name,
               status = lower (group (snd status_match) 2),
               url = None, date_recorded = Some current_date\<rparr>)
         (finditer status_pattern line))"

text \<open>The loop that assumes every unit destroyed.\<close>

definition fallback_entries :: "string \<Rightarrow> string \<Rightarrow> string \<Rightarrow> int \<Rightarrow> EquipmentEntry list" where
  "fallback_entries current_date ctry equipment_name total_count =
     replicate (nat total_count)
       \<lparr>country = lower ctry, equipment_type = equipment_name, status = ''destroyed'',
        url = None, date_recorded = Some current_date\<rparr>"

text \<open>
  \<open>parse_equipment_line(self, line, country, category, html_line)\<close>; \<open>current_date\<close> is
  \<open>self.current_date\<close>.
\<close>

definition parse_equipment_line ::
  "string \<Rightarrow> string \<Rightarrow> string \<Rightarrow> string \<Rightarrow> string option \<Rightarrow> EquipmentEntry list" where
  "parse_equipment_line current_date line ctry category html_line =
     (case re_match item_pattern (strip line) of
        None \<Rightarrow> []
      | Some m \<Rightarrow>
          (let total_count = int_of_digits (group m 1);
               equipment_name = strip (group m 2);
               entries1 = (case html_line of
                             None \<Rightarrow> []
                           | Some h \<Rightarrow> if h = [] then []
                                       else link_entries current_date ctry equipment_name h);
               entries2 = (if entries1 = []
                           then entries1 @ text_entries current_date ctry equipment_name line
                           else entries1);
               entries3 = (if entries2 = [] \<and> total_count > 0
                           then entries2 @ fallback_entries current_date ctry equipment_name total_count
                           else entries2)
           in entries3))"

section \<open>\<open>OryxScraper.scrape_equipment_entries\<close> (\<open>oryx_wat_scraper/client.py\<close>)\<close>

text \<open>
  The page is fetched and parsed by \<open>httpx\<close> and \<open>BeautifulSoup\<close>; the model starts from
  what \<open>content.find_all(["p", "li", "div"])\<close> returns: the elements in document order,
  each with its \<open>get_text(strip=True)\<close> and its \<open>str(element)\<close>.
\<close>

record element =
  text_of :: string
  html_str :: string

text \<open>The local variables of the function that the loop changes.\<close>

record scan_state =
  entries :: "EquipmentEntry list"
  current_category :: "string option"
  in_country_section :: bool

text \<open>What the loop body ends with: \<open>continue\<close> (or the end of the body), or \<open>break\<close>.\<close>

datatype flow = Continue scan_state | Break scan_state

text \<open>\<open>^([^(]+?)\s*\((\d+)\<close> with \<open>re.IGNORECASE\<close>\<close>

definition category_pattern :: re where
  "category_pattern = seqs [Bol, Grp 1 (LazyPlus (Cls (\<lambda>c. c \<noteq> CHR ''(''))),
     Star (Cls is_space), lit_ci ''('', Grp 2 (Plus (Cls is_digit))]"

text \<open>
  \<open>country_lower in text.lower() and any(word in text.lower() for word in ["total", "losses"])\<close>
\<close>

definition is_section_header :: "string \<Rightarrow> string \<Rightarrow> bool" where
  "is_section_header ctry txt =
     (py_in (lower ctry) (lower txt) \<and>
      (py_in ''total'' (lower txt) \<or> py_in ''losses'' (lower txt)))"

text \<open>The two tests under \<open>if in_country_section:\<close>, either of which breaks the loop.\<close>

definition is_other_country :: "string \<Rightarrow> string \<Rightarrow> bool" where
  "is_other_country ctry txt =
     ((py_in ''ukraine'' (lower txt) \<and> lower ctry = ''russia'') \<or>
      (py_in ''russia'' (lower txt) \<and> lower ctry = ''ukraine''))"

text \<open>The truth value of \<open>current_category\<close>: neither \<open>None\<close> nor the empty string.\<close>

definition category_set :: "string option \<Rightarrow> bool" where
  "category_set c = (case c of None \<Rightarrow> False | Some l \<Rightarrow> l \<noteq> [])"

text \<open>The body of the loop over the elements.\<close>

definition scan_element :: "string \<Rightarrow> string \<Rightarrow> scan_state \<Rightarrow> element \<Rightarrow> flow" where
  "scan_element current_date ctry st el =
     (if text_of el = [] then Continue st
      else if is_section_header ctry (text_of el)
      then Continue (st\<lparr>in_country_section := True\<rparr>)
      else if in_country_section st \<and> is_other_country ctry (text_of el) then Break st
      else (case re_search category_pattern (text_of el) of
              Some category_match \<Rightarrow>
                Continue (st\<lparr>current_category := Some (strip (group category_match 1))\<rparr>)
            | None \<Rightarrow>
                if in_country_section st \<and> category_set (current_category st)
                then (case re_match item_pattern (text_of el) of
                        Some equipment_match \<Rightarrow>
                          Continue (st\<lparr>entries := entries st @
                            parse_equipment_line current_date (text_of el) ctry
                              (case current_category st of None \<Rightarrow> [] | Some l \<Rightarrow> l)
                              (Some (html_str el))\<rparr>)
                      | None \<Rightarrow> Continue st)
                else Continue st))"

text \<open>
  The loop over the elements: \<open>Break\<close> when a \<open>break\<close> left it, \<open>Continue\<close> when it ran to the
  end of the list; either way with the variables as they then are.
\<close>

fun scan_elements :: "string \<Rightarrow> string \<Rightarrow> scan_state \<Rightarrow> element list \<Rightarrow> flow" where
  "scan_elements current_date ctry st [] = Continue st"
| "scan_elements current_date ctry st (el # els) =
     (case scan_element current_date ctry st el of
        Break st' \<Rightarrow> Break st'
      | Continue st' \<Rightarrow> scan_elements current_date ctry st' els)"

fun state_of :: "flow \<Rightarrow> scan_state" where
  "state_of (Continue st) = st"
| "state_of (Break st) = st"

definition initial_state :: scan_state where
  "initial_state = \<lparr>entries = [], current_category = None, in_country_section = False\<rparr>"

text \<open>\<open>return entries\<close>\<close>

definition scrape_equipment_entries :: "string \<Rightarrow> string \<Rightarrow> element list \<Rightarrow> EquipmentEntry list" where
  "scrape_equipment_entries current_date ctry els =
     entries (state_of (scan_elements current_date ctry initial_state els))"

section \<open>The two report tables (\<open>oryx_wat_scraper/client.py\<close>)\<close>

text \<open>
  A \<open>dict\<close> keeps its keys in the order of their first insertion: it is a list of pairs
  with distinct keys, read with \<open>map_of\<close> and written with \<open>AList.update\<close>, which
  replaces the value of a key in place and appends a new key at the end.
  \<open>d[k] += 1\<close> on a key that \<open>d\<close> lacks raises \<open>KeyError\<close>.
\<close>

datatype error = KeyError string

text \<open>The value the \<open>defaultdict\<close> gives a new key.\<close>

definition default_counts :: "(string \<times> int) list" where
  "default_counts = [(''destroyed'', 0), (''abandoned'', 0), (''captured'', 0), (''damaged'', 0)]"

text \<open>\<open>counts[k]\<close> of a row's counts, which have the four keys.\<close>

definition count_of :: "(string \<times> int) list \<Rightarrow> string \<Rightarrow> int" where
  "count_of counts k = (case map_of counts k of None \<Rightarrow> 0 | Some n \<Rightarrow> n)"

text \<open>\<open>entry.date_recorded or self.current_date\<close>\<close>

definition date_or :: "string option \<Rightarrow> string \<Rightarrow> string" where
  "date_or d current_date = (case d of None \<Rightarrow> current_date
                             | Some x \<Rightarrow> if x = [] then current_date else x)"

definition daily_key :: "string \<Rightarrow> EquipmentEntry \<Rightarrow> string \<times> string \<times> string" where
  "daily_key current_date entry =
     (country entry, equipment_type entry, date_or (date_recorded entry) current_date)"

text \<open>The first loop of \<open>generate_daily_count_csv\<close>, over the entries.\<close>

fun daily_grouped :: "string \<Rightarrow> ((string \<times> string \<times> string) \<times> (string \<times> int) list) list \<Rightarrow>
    EquipmentEntry list \<Rightarrow> error + ((string \<times> string \<times> string) \<times> (string \<times> int) list) list" where
  "daily_grouped current_date grouped [] = Inr grouped"
| "daily_grouped current_date grouped (entry # rest) =
     (let key = daily_key current_date entry;
          counts = (case map_of grouped key of None \<Rightarrow> default_counts | Some c \<Rightarrow> c)
      in case map_of counts (status entry) of
           None \<Rightarrow> Inl (KeyError (status entry))
         | Some n \<Rightarrow>
             daily_grouped current_date
               (AList.update key (AList.update (status entry) (n + 1) counts) grouped) rest)"

record daily_row =
  row_country :: string
  row_equipment_type :: string
  row_destroyed :: int
  row_abandoned :: int
  row_captured :: int
  row_damaged :: int
  row_type_total :: int
  row_date_recorded :: string

text \<open>The body of the second loop, over \<open>grouped.items()\<close>.\<close>

definition daily_row_of :: "(string \<times> string \<times> string) \<times> (string \<times> int) list \<Rightarrow> daily_row" where
  "daily_row_of item =
     (let counts = snd item; total = sum_list (map snd counts)
      in \<lparr>row_country = fst (fst item), row_equipment_type = fst (snd (fst item)),
          row_destroyed = count_of counts ''destroyed'',
          row_abandoned = count_of counts ''abandoned'',
          row_captured = count_of counts ''captured'',
          row_damaged = count_of counts ''damaged'',
          row_type_total = total,
          row_date_recorded = snd (snd (fst item))\<rparr>)"

definition generate_daily_count_csv :: "string \<Rightarrow> EquipmentEntry list \<Rightarrow> error + daily_row list" where
  "generate_daily_count_csv current_date es =
     (case daily_grouped current_date [] es of
        Inl e \<Rightarrow> Inl e
      | Inr grouped \<Rightarrow> Inr (map daily_row_of grouped))"

definition totals_key :: "EquipmentEntry \<Rightarrow> string \<times> string" where
  "totals_key entry = (country entry, equipment_type entry)"

text \<open>The first loop of \<open>generate_totals_by_type_csv\<close>.\<close>

fun totals_grouped :: "((string \<times> string) \<times> (string \<times> int) list) list \<Rightarrow>
    EquipmentEntry list \<Rightarrow> error + ((string \<times> string) \<times> (string \<times> int) list) list" where
  "totals_grouped grouped [] = Inr grouped"
| "totals_grouped grouped (entry # rest) =
     (let key = totals_key entry;
          counts = (case map_of grouped key of None \<Rightarrow> default_counts | Some c \<Rightarrow> c)
      in case map_of counts (status entry) of
           None \<Rightarrow> Inl (KeyError (status entry))
         | Some n \<Rightarrow>
             totals_grouped
               (AList.update key (AList.update (status entry) (n + 1) counts) grouped) rest)"

record totals_row =
  tot_country :: string
  tot_type :: string
  tot_destroyed :: int
  tot_abandoned :: int
  tot_captured :: int
  tot_damaged :: int
  tot_total :: int

definition totals_row_of :: "(string \<times> string) \<times> (string \<times> int) list \<Rightarrow> totals_row" where
  "totals_row_of item =
     (let counts = snd item; total = sum_list (map snd counts)
      in \<lparr>tot_country = fst (fst item), tot_type = snd (fst item),
          tot_destroyed = count_of counts ''destroyed'',
          tot_abandoned = count_of counts ''abandoned'',
          tot_captured = count_of counts ''captured'',
          tot_damaged = count_of counts ''damaged'',
          tot_total = total\<rparr>)"

definition generate_totals_by_type_csv :: "EquipmentEntry list \<Rightarrow> error + totals_row list" where
  "generate_totals_by_type_csv es =
     (case totals_grouped [] es of
        Inl e \<Rightarrow> Inl e
      | Inr grouped \<Rightarrow> Inr (map totals_row_of grouped))"

section \<open>The copies in \<open>scraper.py\<close>\<close>

text \<open>
  \<open>scraper.py\<close> has a class \<open>OryxScraper\<close> of its own. Its \<open>parse_equipment_line\<close> and
  \<open>generate_daily_count_csv\<close> are translated here from that file, patterns included.
\<close>

definition scraper_parse_equipment_line ::
  "string \<Rightarrow> string \<Rightarrow> string \<Rightarrow> string \<Rightarrow> string option \<Rightarrow> EquipmentEntry list" where
  "scraper_parse_equipment_line current_date line ctry category html_line =
     (case re_match (seqs [Bol, Grp 1 (Plus (Cls is_digit)), Plus (Cls is_space),
              Grp 2 (LazyPlus (Cls (\<lambda>c. c \<noteq> CHR 0x0A))), Star (Cls is_space), lit '':''])
            (strip line) of
        None \<Rightarrow> []
      | Some m \<Rightarrow>
          (let total_count = int_of_digits (group m 1);
               equipment_name = strip (group m 2);
               entries1 = (case html_line of
                   None \<Rightarrow> []
                 | Some h \<Rightarrow> if h = [] then []
                     else map (\<lambda>link_match.
                            \<lparr>country = lower ctry, equipment_type = equipment_name,
                             status = lower (group (snd link_match) 3),
                             url = (if startswith (group (snd link_match) 1) ''http''
                                    then Some (group (snd link_match) 1) else None),
                             date_recorded = Some current_date\<rparr>)
                          (finditer (seqs [lit_ci ''<a'', Star (Cls (\<lambda>c. c \<noteq> CHR ''>'')),
                             lit_ci ''href=\"'', Grp 1 (Star (Cls (\<lambda>c. c \<noteq> CHR 0x22))),
                             lit_ci ''\"'', Star (Cls (\<lambda>c. c \<noteq> CHR ''>'')), lit_ci ''>('',
                             Grp 2 (Plus (Cls is_digit)), lit_ci '','', Star (Cls is_space),
                             Grp 3 (alts [lit_ci ''destroyed'', lit_ci ''captured'',
                                          lit_ci ''abandoned'', lit_ci ''damaged'']),
                             lit_ci '')</a>'']) h));
               entries2 = (if entries1 = []
                 then entries1 @ concat (map (\<lambda>status_match.
                        replicate (length (finditer (Plus (Cls is_digit))
                                             (group (snd status_match) 1)))
                          \<lparr>country = lower ctry, equipment_type = equipment_name,
                           status = lower (group (snd status_match) 2),
                           url = None, date_recorded = Some current_date\<rparr>)
                      (finditer (seqs [lit_ci ''('',
                         Grp 1 (Seq (Plus (Cls is_digit))
                           (Star (seqs [Star (Cls is_space), lit_ci '','', Star (Cls is_space),
                                        Plus (Cls is_digit)]))),
                         Star (Cls is_space), lit_ci '','', Star (Cls is_space),
                         Grp 2 (alts [lit_ci ''destroyed'', lit_ci ''captured'',
                                      lit_ci ''abandoned'', lit_ci ''damaged'']),
                         lit_ci '')'']) line))
                 else entries1);
               entries3 = (if entries2 = [] \<and> total_count > 0
                 then entries2 @ replicate (nat total_count)
                        \<lparr>country = lower ctry, equipment_type = equipment_name,
                         status = ''destroyed'', url = None, date_recorded = Some current_date\<rparr>
                 else entries2)
           in entries3))"

fun scraper_daily_grouped :: "string \<Rightarrow> ((string \<times> string \<times> string) \<times> (string \<times> int) list) list \<Rightarrow>
    EquipmentEntry list \<Rightarrow> error + ((string \<times> string \<times> string) \<times> (string \<times> int) list) list" where
  "scraper_daily_grouped current_date grouped [] = Inr grouped"
| "scraper_daily_grouped current_date grouped (entry # rest) =
     (let key = (country entry, equipment_type entry,
                 (case date_recorded entry of None \<Rightarrow> current_date
                  | Some x \<Rightarrow> if x = [] then current_date else x));
          counts = (case map_of grouped key of
                      None \<Rightarrow> [(''destroyed'', 0), (''abandoned'', 0), (''captured'', 0),
                               (''damaged'', 0)]
                    | Some c \<Rightarrow> c)
      in case map_of counts (status entry) of
           None \<Rightarrow> Inl (KeyError (status entry))
         | Some n \<Rightarrow>
             scraper_daily_grouped current_date
               (AList.update key (AList.update (status entry) (n + 1) counts) grouped) rest)"

definition scraper_generate_daily_count_csv ::
  "string \<Rightarrow> EquipmentEntry list \<Rightarrow> error + daily_row list" where
  "scraper_generate_daily_count_csv current_date es =
     (case scraper_daily_grouped current_date [] es of
        Inl e \<Rightarrow> Inl e
      | Inr grouped \<Rightarrow>
          Inr (map (\<lambda>item.
                 \<lparr>row_country = fst (fst item), row_equipment_type = fst (snd (fst item)),
                  row_destroyed = count_of (snd item) ''destroyed'',
                  row_abandoned = count_of (snd item) ''abandoned'',
                  row_captured = count_of (snd item) ''captured'',
                  row_damaged = count_of (snd item) ''damaged'',
                  row_type_total = sum_list (map snd (snd item)),
                  row_date_recorded = snd (snd (fst item))\<rparr>) grouped))"

section \<open>What the tables should hold\<close>

text \<open>
  The two grouping loops differ only in the key. \<open>count_loop\<close> is that loop with the key as
  a parameter; \<open>tally\<close> counts the entries of a key and a status, and \<open>grouped_inv\<close> says
  that a dictionary holds, under distinct keys, exactly the tallies of the entries read so
  far.
\<close>

fun count_loop :: "(EquipmentEntry \<Rightarrow> 'k) \<Rightarrow> ('k \<times> (string \<times> int) list) list \<Rightarrow>
    EquipmentEntry list \<Rightarrow> error + ('k \<times> (string \<times> int) list) list" where
  "count_loop key grouped [] = Inr grouped"
| "count_loop key grouped (entry # rest) =
     (let counts = (case map_of grouped (key entry) of None \<Rightarrow> default_counts | Some c \<Rightarrow> c)
      in case map_of counts (status entry) of
           None \<Rightarrow> Inl (KeyError (status entry))
         | Some n \<Rightarrow>
             count_loop key
               (AList.update (key entry) (AList.update (status entry) (n + 1) counts) grouped) rest)"

definition tally :: "(EquipmentEntry \<Rightarrow> 'k) \<Rightarrow> EquipmentEntry list \<Rightarrow> 'k \<Rightarrow> string \<Rightarrow> int" where
  "tally key es k w = int (length (filter (\<lambda>e. key e = k \<and> status e = w) es))"

definition counts_for :: "(EquipmentEntry \<Rightarrow> 'k) \<Rightarrow> EquipmentEntry list \<Rightarrow> 'k \<Rightarrow> (string \<times> int) list" where
  "counts_for key es k =
     [(''destroyed'', tally key es k ''destroyed''), (''abandoned'', tally key es k ''abandoned''),
      (''captured'', tally key es k ''captured''), (''damaged'', tally key es k ''damaged'')]"

definition grouped_inv :: "(EquipmentEntry \<Rightarrow> 'k) \<Rightarrow> ('k \<times> (string \<times> int) list) list \<Rightarrow>
    EquipmentEntry list \<Rightarrow> bool" where
  "grouped_inv key grouped es \<longleftrightarrow>
     distinct (map fst grouped) \<and>
     (\<forall>k. map_of grouped k = (if k \<in> key ` set es then Some (counts_for key es k) else None))"

section \<open>Example data\<close>

definition example_entries :: "EquipmentEntry list" where
  "example_entries =
     [\<lparr>country = ''russia'', equipment_type = ''T-72'', status = ''destroyed'',
       url = Some ''http://x/1'', date_recorded = Some ''2024-01-01''\<rparr>,
      \<lparr>country = ''ukraine'', equipment_type = ''BMP-1'', status = ''damaged'',
       url = None, date_recorded = Some ''2024-01-01''\<rparr>,
      \<lparr>country = ''russia'', equipment_type = ''T-72'', status = ''captured'',
       url = None, date_recorded = None\<rparr>]"

definition example_daily_rows :: "daily_row list" where
  "example_daily_rows =
     [\<lparr>row_country = ''russia'', row_equipment_type = ''T-72'', row_destroyed = 1,
       row_abandoned = 0, row_captured = 1, row_damaged = 0, row_type_total = 2,
       row_date_recorded = ''2024-01-01''\<rparr>,
      \<lparr>row_country = ''ukraine'', row_equipment_type = ''BMP-1'', row_destroyed = 0,
       row_abandoned = 0, row_captured = 0, row_damaged = 1, row_type_total = 1,
       row_date_recorded = ''2024-01-01''\<rparr>]"

definition example_totals_rows :: "totals_row list" where
  "example_totals_rows =
     [\<lparr>tot_country = ''russia'', tot_type = ''T-72'', tot_destroyed = 1,
       tot_abandoned = 0, tot_captured = 1, tot_damaged = 0, tot_total = 2\<rparr>,
      \<lparr>tot_country = ''ukraine'', tot_type = ''BMP-1'', tot_destroyed = 0,
       tot_abandoned = 0, tot_captured = 0, tot_damaged = 1, tot_total = 1\<rparr>]"

section \<open>Facts about the matcher\<close>

lemma run_suffix:
  "(i', s', g') \<in> set (run r (i, s, g)) \<Longrightarrow> \<exists>w. s = w @ s' \<and> i' = i + length w"
proof (induction r "(i, s, g)" arbitrary: i s g i' s' g' rule: run.induct)
  case (1 P i s g)
  then show ?case by (auto split: list.splits if_splits)
next
  case (2 i s g)
  then show ?case by (auto split: if_splits)
next
  case (3 i s g)
  then show ?case by auto
next
  case (4 a b i s g)
  from "4.prems" obtain i1 s1 g1 where a: "(i1, s1, g1) \<in> set (run a (i, s, g))"
    and b: "(i', s', g') \<in> set (run b (i1, s1, g1))"
    by auto
  from "4.hyps"(1)[OF a] obtain w1 where w1: "s = w1 @ s1" "i1 = i + length w1"
    by auto
  from "4.hyps"(2)[OF a b] obtain w2 where w2: "s1 = w2 @ s'" "i' = i1 + length w2"
    by auto
  show ?case using w1 w2 by (intro exI[of _ "w1 @ w2"]) auto
next
  case (5 a b i s g)
  then show ?case by auto
next
  case (6 r i s g)
  from "6.prems" consider (stop) "(i', s', g') = (i, s, g)"
    | (more) i1 s1 g1 where "(i1, s1, g1) \<in> set (run r (i, s, g))" "length s1 < length s"
        "(i', s', g') \<in> set (run (Star r) (i1, s1, g1))"
    by (auto split: if_splits)
  then show ?case
  proof cases
    case stop
    then show ?thesis by auto
  next
    case more
    from "6.hyps"(1)[OF more(1)] obtain w1 where w1: "s = w1 @ s1" "i1 = i + length w1"
      by auto
    from "6.hyps"(2)[OF more(1) _ more(3)] more(2) obtain w2 where w2: "s1 = w2 @ s'" "i' = i1 + length w2"
      by auto
    show ?thesis using w1 w2 by (intro exI[of _ "w1 @ w2"]) auto
  qed
next
  case (7 r i s g)
  from "7.prems" consider (stop) "(i', s', g') = (i, s, g)"
    | (more) i1 s1 g1 where "(i1, s1, g1) \<in> set (run r (i, s, g))" "length s1 < length s"
        "(i', s', g') \<in> set (run (LazyStar r) (i1, s1, g1))"
    by (auto split: if_splits)
  then show ?case
  proof cases
    case stop
    then show ?thesis by auto
  next
    case more
    from "7.hyps"(1)[OF more(1)] obtain w1 where w1: "s = w1 @ s1" "i1 = i + length w1"
      by auto
    from "7.hyps"(2)[OF more(1) _ more(3)] more(2) obtain w2 where w2: "s1 = w2 @ s'" "i' = i1 + length w2"
      by auto
    show ?thesis using w1 w2 by (intro exI[of _ "w1 @ w2"]) auto
  qed
next
  case (8 n r i s g)
  then show ?case by auto
qed

lemma run_Cls_mem:
  "(i', s', g') \<in> set (run (Cls P) (i, s, g)) \<longleftrightarrow> (\<exists>c. s = c # s' \<and> P c \<and> i' = Suc i \<and> g' = g)"
  by (auto split: list.splits)

lemma run_Seq_mem:
  "st'' \<in> set (run (Seq a b) st) \<longleftrightarrow> (\<exists>st'. st' \<in> set (run a st) \<and> st'' \<in> set (run b st'))"
  by (cases st) auto

lemma run_Alt_mem:
  "st' \<in> set (run (Alt a b) st) \<longleftrightarrow> st' \<in> set (run a st) \<or> st' \<in> set (run b st)"
  by (cases st) auto

lemma run_Grp_mem:
  "(i', s', g') \<in> set (run (Grp n r) (i, s, g)) \<longleftrightarrow>
   (\<exists>g0. (i', s', g0) \<in> set (run r (i, s, g)) \<and> g' = g0(n \<mapsto> take (length s - length s') s))"
  by force

lemma run_Star_Cls_mem:
  "(i', s', g') \<in> set (run (Star (Cls P)) (i, s, g)) \<Longrightarrow>
   \<exists>w. s = w @ s' \<and> (\<forall>c\<in>set w. P c) \<and> i' = i + length w \<and> g' = g"
proof (induction s arbitrary: i)
  case Nil
  then show ?case by auto
next
  case (Cons c cs)
  show ?case
  proof (cases "P c")
    case True
    with Cons.prems have "(i', s', g') = (i, c # cs, g) \<or> (i', s', g') \<in> set (run (Star (Cls P)) (Suc i, cs, g))"
      by auto
    then show ?thesis
    proof
      assume "(i', s', g') = (i, c # cs, g)"
      then show ?thesis by auto
    next
      assume "(i', s', g') \<in> set (run (Star (Cls P)) (Suc i, cs, g))"
      from Cons.IH[OF this] obtain w where "cs = w @ s'" "\<forall>c\<in>set w. P c" "i' = Suc i + length w" "g' = g"
        by auto
      with True show ?thesis by (intro exI[of _ "c # w"]) auto
    qed
  next
    case False
    with Cons.prems show ?thesis by auto
  qed
qed

lemma run_LazyStar_Cls_mem:
  "(i', s', g') \<in> set (run (LazyStar (Cls P)) (i, s, g)) \<Longrightarrow>
   \<exists>w. s = w @ s' \<and> (\<forall>c\<in>set w. P c) \<and> i' = i + length w \<and> g' = g"
proof (induction s arbitrary: i)
  case Nil
  then show ?case by auto
next
  case (Cons c cs)
  show ?case
  proof (cases "P c")
    case True
    with Cons.prems have "(i', s', g') = (i, c # cs, g) \<or> (i', s', g') \<in> set (run (LazyStar (Cls P)) (Suc i, cs, g))"
      by auto
    then show ?thesis
    proof
      assume "(i', s', g') = (i, c # cs, g)"
      then show ?thesis by auto
    next
      assume "(i', s', g') \<in> set (run (LazyStar (Cls P)) (Suc i, cs, g))"
      from Cons.IH[OF this] obtain w where "cs = w @ s'" "\<forall>c\<in>set w. P c" "i' = Suc i + length w" "g' = g"
        by auto
      with True show ?thesis by (intro exI[of _ "c # w"]) auto
    qed
  next
    case False
    with Cons.prems show ?thesis by auto
  qed
qed

lemma run_Plus_Cls_mem:
  "(i', s', g') \<in> set (run (Plus (Cls P)) (i, s, g)) \<Longrightarrow>
   \<exists>w. s = w @ s' \<and> w \<noteq> [] \<and> (\<forall>c\<in>set w. P c) \<and> i' = i + length w \<and> g' = g"
proof -
  assume "(i', s', g') \<in> set (run (Plus (Cls P)) (i, s, g))"
  then obtain c cs where s: "s = c # cs" "P c" and m: "(i', s', g') \<in> set (run (Star (Cls P)) (Suc i, cs, g))"
    unfolding Plus_def run_Seq_mem by (auto simp del: run.simps(6) split: list.splits if_splits)
  from run_Star_Cls_mem[OF m] obtain w where "cs = w @ s'" "\<forall>c\<in>set w. P c" "i' = Suc i + length w" "g' = g"
    by auto
  with s show ?thesis by (intro exI[of _ "c # w"]) auto
qed

lemma run_LazyPlus_Cls_mem:
  "(i', s', g') \<in> set (run (LazyPlus (Cls P)) (i, s, g)) \<Longrightarrow>
   \<exists>w. s = w @ s' \<and> w \<noteq> [] \<and> (\<forall>c\<in>set w. P c) \<and> i' = i + length w \<and> g' = g"
proof -
  assume "(i', s', g') \<in> set (run (LazyPlus (Cls P)) (i, s, g))"
  then obtain c cs where s: "s = c # cs" "P c" and m: "(i', s', g') \<in> set (run (LazyStar (Cls P)) (Suc i, cs, g))"
    unfolding LazyPlus_def run_Seq_mem by (auto simp del: run.simps(7) split: list.splits if_splits)
  from run_LazyStar_Cls_mem[OF m] obtain w where "cs = w @ s'" "\<forall>c\<in>set w. P c" "i' = Suc i + length w" "g' = g"
    by auto
  with s show ?thesis by (intro exI[of _ "c # w"]) auto
qed

lemma run_lit_mem:
  "(i', s', g') \<in> set (run (lit w) (i, s, g)) \<Longrightarrow> s = w @ s' \<and> i' = i + length w \<and> g' = g"
proof (induction w arbitrary: i s)
  case Nil
  then show ?case by auto
next
  case (Cons c w)
  from Cons.prems obtain cs where s: "s = c # cs" and m: "(i', s', g') \<in> set (run (lit w) (Suc i, cs, g))"
    by (auto split: list.splits if_splits)
  from Cons.IH[OF m] s show ?case by auto
qed

lemma run_lit_ci_mem:
  "(i', s', g') \<in> set (run (lit_ci w) (i, s, g)) \<Longrightarrow>
   \<exists>x. s = x @ s' \<and> lower x = lower w \<and> i' = i + length w \<and> g' = g"
proof (induction w arbitrary: i s)
  case Nil
  then show ?case by (auto simp: lower_def)
next
  case (Cons c w)
  from Cons.prems obtain d cs where s: "s = d # cs" "lower_char d = lower_char c"
    and m: "(i', s', g') \<in> set (run (lit_ci w) (Suc i, cs, g))"
    by (auto split: list.splits if_splits)
  from Cons.IH[OF m] obtain x where "cs = x @ s'" "lower x = lower w" "i' = Suc i + length w" "g' = g"
    by auto
  with s show ?case by (intro exI[of _ "d # x"]) (auto simp: lower_def)
qed

lemma run_SeqE:
  assumes "st'' \<in> set (run (Seq a b) st)"
  obtains st' where "st' \<in> set (run a st)" "st'' \<in> set (run b st')"
  using assms unfolding run_Seq_mem by blast

lemma item_pattern_unfold:
  "item_pattern = Seq Bol (Seq (Grp 1 (Plus (Cls is_digit))) (Seq (Plus (Cls is_space))
     (Seq (Grp 2 (LazyPlus (Cls (\<lambda>c. c \<noteq> CHR 0x0A)))) (Seq (Star (Cls is_space)) (lit '':'')))))"
  by (simp add: item_pattern_def)

lemma item_pattern_steps:
  assumes "(i', s', g') \<in> set (run item_pattern (0, s, Map.empty))"
  shows "\<exists>st1 st2 st3 st4 st5.
    st1 \<in> set (run Bol (0, s, Map.empty)) \<and>
    st2 \<in> set (run (Grp 1 (Plus (Cls is_digit))) st1) \<and>
    st3 \<in> set (run (Plus (Cls is_space)) st2) \<and>
    st4 \<in> set (run (Grp 2 (LazyPlus (Cls (\<lambda>c. c \<noteq> CHR 0x0A)))) st3) \<and>
    st5 \<in> set (run (Star (Cls is_space)) st4) \<and>
    (i', s', g') \<in> set (run (lit '':'') st5)"
  using assms unfolding item_pattern_unfold
  by (elim run_SeqE) (intro exI conjI, assumption+)

lemma run_Grp_elim:
  assumes "(i', s', g') \<in> set (run (Grp n r) (i, s, g))"
  obtains g0 w where "(i', s', g0) \<in> set (run r (i, s, g))" "s = w @ s'" "g' = g0(n \<mapsto> w)"
proof -
  from assms have "\<exists>g0. (i', s', g0) \<in> set (run r (i, s, g)) \<and>
      g' = g0(n \<mapsto> take (length s - length s') s)"
    by (simp only: run_Grp_mem)
  then obtain g0 where m: "(i', s', g0) \<in> set (run r (i, s, g))"
    and g': "g' = g0(n \<mapsto> take (length s - length s') s)"
    by (elim exE conjE)
  from run_suffix[OF m] obtain w where w: "s = w @ s'" by (elim exE conjE)
  have t: "take (length s - length s') s = w" unfolding w by simp
  have "g' = g0(n \<mapsto> w)" unfolding g' t ..
  with m w show thesis by (rule that)
qed

lemma re_match_SomeD:
  "re_match r s = Some g \<Longrightarrow> \<exists>i' s'. (i', s', g) \<in> set (run r (0, s, Map.empty))"
proof -
  assume a: "re_match r s = Some g"
  show ?thesis
  proof (cases "run r (0, s, Map.empty)")
    case Nil
    with a show ?thesis by (simp add: re_match_def)
  next
    case (Cons st sts)
    with a have g: "g = snd (snd st)" by (simp add: re_match_def)
    have "(fst st, fst (snd st), g) = st" unfolding g by simp
    moreover have "st \<in> set (run r (0, s, Map.empty))" unfolding Cons by simp
    ultimately have "(fst st, fst (snd st), g) \<in> set (run r (0, s, Map.empty))" by simp
    then show ?thesis by (intro exI)
  qed
qed

lemma item_match_shape:
  assumes "(i', s', g') \<in> set (run item_pattern (0, s, Map.empty))"
  shows "\<exists>d w n w2. s = d @ w @ n @ w2 @ '':'' @ s' \<and>
           d \<noteq> [] \<and> (\<forall>c\<in>set d. is_digit c) \<and> w \<noteq> [] \<and> (\<forall>c\<in>set w. is_space c) \<and>
           n \<noteq> [] \<and> (\<forall>c\<in>set n. c \<noteq> CHR 0x0A) \<and> (\<forall>c\<in>set w2. is_space c) \<and>
           g' 1 = Some d \<and> g' 2 = Some n"
proof -
  from item_pattern_steps[OF assms] obtain st1 st2 st3 st4 st5 where
    m1: "st1 \<in> set (run Bol (0, s, Map.empty))" and
    m2: "st2 \<in> set (run (Grp 1 (Plus (Cls is_digit))) st1)" and
    m3: "st3 \<in> set (run (Plus (Cls is_space)) st2)" and
    m4: "st4 \<in> set (run (Grp 2 (LazyPlus (Cls (\<lambda>c. c \<noteq> CHR 0x0A)))) st3)" and
    m5: "st5 \<in> set (run (Star (Cls is_space)) st4)" and
    m6: "(i', s', g') \<in> set (run (lit '':'') st5)"
    by (elim exE conjE)
  from m1 have st1: "st1 = (0, s, Map.empty)" by simp
  obtain i2 s2 g2 where st2: "st2 = (i2, s2, g2)" by (cases st2)
  obtain i3 s3 g3 where st3: "st3 = (i3, s3, g3)" by (cases st3)
  obtain i4 s4 g4 where st4: "st4 = (i4, s4, g4)" by (cases st4)
  obtain i5 s5 g5 where st5: "st5 = (i5, s5, g5)" by (cases st5)
  from m2[unfolded st1 st2] obtain g0 d where
    d0: "(i2, s2, g0) \<in> set (run (Plus (Cls is_digit)) (0, s, Map.empty))" and
    d1: "s = d @ s2" "g2 = g0(1 \<mapsto> d)"
    by (rule run_Grp_elim)
  from run_Plus_Cls_mem[OF d0] d1 have d2: "d \<noteq> []" "\<forall>c\<in>set d. is_digit c" "g0 = Map.empty"
    by auto
  from run_Plus_Cls_mem[OF m3[unfolded st2 st3]] obtain w where
    w: "s2 = w @ s3" "w \<noteq> []" "\<forall>c\<in>set w. is_space c" "g3 = g2"
    by auto
  from m4[unfolded st3 st4] obtain g0' n where
    n0: "(i4, s4, g0') \<in> set (run (LazyPlus (Cls (\<lambda>c. c \<noteq> CHR 0x0A))) (i3, s3, g3))" and
    n1: "s3 = n @ s4" "g4 = g0'(2 \<mapsto> n)"
    by (rule run_Grp_elim)
  from run_LazyPlus_Cls_mem[OF n0] n1 have n2: "n \<noteq> []" "\<forall>c\<in>set n. c \<noteq> CHR 0x0A" "g0' = g3"
    by auto
  from run_Star_Cls_mem[OF m5[unfolded st4 st5]] obtain w2 where
    w2: "s4 = w2 @ s5" "\<forall>c\<in>set w2. is_space c" "g5 = g4"
    by auto
  from run_lit_mem[OF m6[unfolded st5]] have c: "s5 = '':'' @ s'" "g' = g5"
    by auto
  have "s = d @ w @ n @ w2 @ '':'' @ s'"
    using d1(1) w(1) n1(1) w2(1) c(1) by simp
  moreover have "g' 1 = Some d" "g' 2 = Some n"
    using d1(2) w(4) n1(2) n2(3) w2(3) c(2) by simp_all
  ultimately show ?thesis
    using d2(1,2) w(2,3) n2(1,2) w2(2) by blast
qed

lemma lower_status_words:
  "lower ''destroyed'' = ''destroyed''" "lower ''captured'' = ''captured''"
  "lower ''abandoned'' = ''abandoned''" "lower ''damaged'' = ''damaged''"
  by code_simp+

lemma status_alt_unfold:
  "status_alt = Alt (lit_ci ''destroyed'') (Alt (lit_ci ''captured'')
     (Alt (lit_ci ''abandoned'') (lit_ci ''damaged'')))"
  by (simp add: status_alt_def status_words_def)

lemma status_alt_mem:
  assumes "(i', s', g') \<in> set (run status_alt (i, s, g))"
  shows "\<exists>x. s = x @ s' \<and> lower x \<in> set status_words \<and> g' = g"
proof -
  from assms consider
      "(i', s', g') \<in> set (run (lit_ci ''destroyed'') (i, s, g))"
    | "(i', s', g') \<in> set (run (lit_ci ''captured'') (i, s, g))"
    | "(i', s', g') \<in> set (run (lit_ci ''abandoned'') (i, s, g))"
    | "(i', s', g') \<in> set (run (lit_ci ''damaged'') (i, s, g))"
    unfolding status_alt_unfold run_Alt_mem by blast
  then show ?thesis
  proof cases
    case 1
    from run_lit_ci_mem[OF 1] show ?thesis
      by (auto simp: lower_status_words status_words_def)
  next
    case 2
    from run_lit_ci_mem[OF 2] show ?thesis
      by (auto simp: lower_status_words status_words_def)
  next
    case 3
    from run_lit_ci_mem[OF 3] show ?thesis
      by (auto simp: lower_status_words status_words_def)
  next
    case 4
    from run_lit_ci_mem[OF 4] show ?thesis
      by (auto simp: lower_status_words status_words_def)
  qed
qed

lemma Grp_status_alt_mem:
  assumes "st' \<in> set (run (Grp n status_alt) st)"
  shows "\<exists>x. snd (snd st') n = Some x \<and> lower x \<in> set status_words"
proof -
  obtain i s g where st: "st = (i, s, g)" by (cases st)
  obtain i' s' g' where st': "st' = (i', s', g')" by (cases st')
  from assms[unfolded st st'] obtain g0 w where
    m: "(i', s', g0) \<in> set (run status_alt (i, s, g))" and w: "s = w @ s'" "g' = g0(n \<mapsto> w)"
    by (rule run_Grp_elim)
  from status_alt_mem[OF m] obtain x where x: "s = x @ s'" "lower x \<in> set status_words"
    by blast
  from w(1) x(1) have "w = x" by simp
  with w(2) x(2) st' show ?thesis by simp
qed

lemma lit_ci_groups:
  assumes "st' \<in> set (run (lit_ci w) st)"
  shows "snd (snd st') = snd (snd st)"
proof -
  obtain i s g where st: "st = (i, s, g)" by (cases st)
  obtain i' s' g' where st': "st' = (i', s', g')" by (cases st')
  from run_lit_ci_mem[OF assms[unfolded st st']] st st' show ?thesis by auto
qed

lemma link_pattern_unfold:
  "link_pattern = Seq (lit_ci ''<a'') (Seq (Star (Cls (\<lambda>c. c \<noteq> CHR ''>'')))
     (Seq (lit_ci ''href=\"'') (Seq (Grp 1 (Star (Cls (\<lambda>c. c \<noteq> CHR 0x22))))
     (Seq (lit_ci ''\"'') (Seq (Star (Cls (\<lambda>c. c \<noteq> CHR ''>''))) (Seq (lit_ci ''>('')
     (Seq (Grp 2 (Plus (Cls is_digit))) (Seq (lit_ci '','') (Seq (Star (Cls is_space))
     (Seq (Grp 3 status_alt) (lit_ci '')</a>'')))))))))))"
  by (simp add: link_pattern_def)

lemma link_match_status:
  assumes "st' \<in> set (run link_pattern st)"
  shows "\<exists>x. snd (snd st') 3 = Some x \<and> lower x \<in> set status_words"
proof -
  from assms have "\<exists>sta stb. stb \<in> set (run (Grp 3 status_alt) sta) \<and>
      st' \<in> set (run (lit_ci '')</a>'') stb)"
    unfolding link_pattern_unfold
    by (elim run_SeqE) (intro exI conjI, assumption+)
  then obtain sta stb where a: "stb \<in> set (run (Grp 3 status_alt) sta)"
    and b: "st' \<in> set (run (lit_ci '')</a>'') stb)"
    by (elim exE conjE)
  from Grp_status_alt_mem[OF a] lit_ci_groups[OF b] show ?thesis by simp
qed

lemma status_pattern_unfold:
  "status_pattern = Seq (lit_ci ''('')
     (Seq (Grp 1 (Seq (Plus (Cls is_digit))
                (Star (seqs [Star (Cls is_space), lit_ci '','', Star (Cls is_space),
                             Plus (Cls is_digit)]))))
     (Seq (Star (Cls is_space)) (Seq (lit_ci '','') (Seq (Star (Cls is_space))
     (Seq (Grp 2 status_alt) (lit_ci '')''))))))"
  by (simp add: status_pattern_def)

lemma status_match_status:
  assumes "st' \<in> set (run status_pattern st)"
  shows "\<exists>x. snd (snd st') 2 = Some x \<and> lower x \<in> set status_words"
proof -
  from assms have "\<exists>sta stb. stb \<in> set (run (Grp 2 status_alt) sta) \<and>
      st' \<in> set (run (lit_ci '')'') stb)"
    unfolding status_pattern_unfold
    by (elim run_SeqE) (intro exI conjI, assumption+)
  then obtain sta stb where a: "stb \<in> set (run (Grp 2 status_alt) sta)"
    and b: "st' \<in> set (run (lit_ci '')'') stb)"
    by (elim exE conjE)
  from Grp_status_alt_mem[OF a] lit_ci_groups[OF b] show ?thesis by simp
qed

lemma finditer_from_mem:
  "m \<in> set (finditer_from r i s) \<Longrightarrow> \<exists>st st'. st' \<in> set (run r st) \<and> snd m = snd (snd st')"
proof (induction r i s rule: finditer_from.induct)
  case (1 r i s)
  show ?case
  proof (cases "run r (i, s, Map.empty)")
    case Nil
    show ?thesis
    proof (cases s)
      case Nil
      with \<open>run r (i, s, Map.empty) = []\<close> "1.prems" show ?thesis
        by (subst (asm) finditer_from.simps) simp
    next
      case (Cons c cs)
      with \<open>run r (i, s, Map.empty) = []\<close> "1.prems"
      have "m \<in> set (finditer_from r (Suc i) cs)"
        by (subst (asm) finditer_from.simps) simp
      from "1.IH"(1)[OF \<open>run r (i, s, Map.empty) = []\<close> Cons this] show ?thesis .
    qed
  next
    case (Cons st sts)
    then have hd: "st \<in> set (run r (i, s, Map.empty))" by simp
    show ?thesis
    proof (cases "length (fst (snd st)) < length s")
      case True
      with Cons "1.prems" have "m = ((i, fst st), snd (snd st)) \<or>
          m \<in> set (finditer_from r (fst st) (fst (snd st)))"
        by (subst (asm) finditer_from.simps) simp
      then show ?thesis
      proof
        assume "m = ((i, fst st), snd (snd st))"
        with hd show ?thesis
          by (intro exI[of _ "(i, s, Map.empty)"] exI[of _ st]) simp
      next
        assume "m \<in> set (finditer_from r (fst st) (fst (snd st)))"
        from "1.IH"(2)[OF Cons True this] show ?thesis .
      qed
    next
      case False
      show ?thesis
      proof (cases s)
        case Nil
        with Cons False "1.prems" have "m = ((i, fst st), snd (snd st))"
          by (subst (asm) finditer_from.simps) simp
        with hd show ?thesis
          by (intro exI[of _ "(i, s, Map.empty)"] exI[of _ st]) simp
      next
        case (Cons c cs)
        with \<open>run r (i, s, Map.empty) = st # sts\<close> False "1.prems"
        have "m = ((i, fst st), snd (snd st)) \<or> m \<in> set (finditer_from r (Suc i) cs)"
          by (subst (asm) finditer_from.simps) simp
        then show ?thesis
        proof
          assume "m = ((i, fst st), snd (snd st))"
          with hd show ?thesis
          by (intro exI[of _ "(i, s, Map.empty)"] exI[of _ st]) simp
        next
          assume "m \<in> set (finditer_from r (Suc i) cs)"
          from "1.IH"(3)[OF \<open>run r (i, s, Map.empty) = st # sts\<close> False Cons this]
          show ?thesis .
        qed
      qed
    qed
  qed
qed

lemma strip_empty_iff: "strip s = [] \<longleftrightarrow> (\<forall>c\<in>set s. is_space c)"
proof
  assume "strip s = []"
  then have a: "\<forall>c\<in>set (dropWhile is_space s). is_space c"
    by (simp add: strip_def dropWhile_eq_Nil_conv)
  have "dropWhile is_space s = []"
  proof (rule ccontr)
    assume n: "dropWhile is_space s \<noteq> []"
    then have "\<not> is_space (hd (dropWhile is_space s))" by (rule hd_dropWhile)
    moreover from n have "hd (dropWhile is_space s) \<in> set (dropWhile is_space s)" by simp
    ultimately show False using a by blast
  qed
  then show "\<forall>c\<in>set s. is_space c" by (simp add: dropWhile_eq_Nil_conv)
next
  assume "\<forall>c\<in>set s. is_space c"
  then have e: "dropWhile is_space s = []" by (simp add: dropWhile_eq_Nil_conv)
  show "strip s = []" unfolding strip_def e by simp
qed

lemma finditer_mem:
  "m \<in> set (finditer r s) \<Longrightarrow> \<exists>st st'. st' \<in> set (run r st) \<and> snd m = snd (snd st')"
  unfolding finditer_def by (rule finditer_from_mem)

lemma link_entries_mem:
  assumes "e \<in> set (link_entries d ctry name h)"
  shows "status e \<in> set status_words \<and> country e = lower ctry \<and> equipment_type e = name \<and>
         date_recorded e = Some d \<and> (\<forall>u. url e = Some u \<longrightarrow> startswith u ''http'')"
proof -
  from assms obtain m where m: "m \<in> set (finditer link_pattern h)"
    and e: "e = \<lparr>country = lower ctry, equipment_type = name,
             status = lower (group (snd m) 3),
             url = (if startswith (group (snd m) 1) ''http''
                    then Some (group (snd m) 1) else None),
             date_recorded = Some d\<rparr>"
    unfolding link_entries_def by auto
  from finditer_mem[OF m] obtain st st' where
    r: "st' \<in> set (run link_pattern st)" and g: "snd m = snd (snd st')"
    by blast
  from link_match_status[OF r] g have "lower (group (snd m) 3) \<in> set status_words"
    by (auto simp: group_def)
  with e show ?thesis by simp
qed

lemma text_entries_mem:
  assumes "e \<in> set (text_entries d ctry name line)"
  shows "status e \<in> set status_words \<and> country e = lower ctry \<and> equipment_type e = name \<and>
         date_recorded e = Some d \<and> url e = None"
proof -
  from assms obtain m where m: "m \<in> set (finditer status_pattern line)"
    and e: "e = \<lparr>country = lower ctry, equipment_type = name,
             status = lower (group (snd m) 2), url = None, date_recorded = Some d\<rparr>"
    unfolding text_entries_def by auto
  from finditer_mem[OF m] obtain st st' where
    r: "st' \<in> set (run status_pattern st)" and g: "snd m = snd (snd st')"
    by blast
  from status_match_status[OF r] g have "lower (group (snd m) 2) \<in> set status_words"
    by (auto simp: group_def)
  with e show ?thesis by simp
qed

lemma fallback_entries_mem:
  assumes "e \<in> set (fallback_entries d ctry name n)"
  shows "status e \<in> set status_words \<and> country e = lower ctry \<and> equipment_type e = name \<and>
         date_recorded e = Some d \<and> url e = None"
  using assms by (auto simp: fallback_entries_def status_words_def)

lemma parse_cases:
  assumes "re_match item_pattern (strip line) = Some m"
  shows "parse_equipment_line d line ctry cat html =
     (let name = strip (group m 2);
          markup = (case html of None \<Rightarrow> []
                    | Some h \<Rightarrow> if h = [] then [] else link_entries d ctry name h);
          plain = text_entries d ctry name line
      in if markup \<noteq> [] then markup
         else if plain \<noteq> [] then plain
         else if 0 < int_of_digits (group m 1)
              then fallback_entries d ctry name (int_of_digits (group m 1))
              else [])"
  by (simp add: parse_equipment_line_def assms Let_def)

lemma parse_mem:
  assumes "e \<in> set (parse_equipment_line d line ctry cat html)"
  shows "\<exists>m. re_match item_pattern (strip line) = Some m \<and>
           status e \<in> set status_words \<and> country e = lower ctry \<and>
           equipment_type e = strip (group m 2) \<and> date_recorded e = Some d"
proof (cases "re_match item_pattern (strip line)")
  case None
  with assms show ?thesis by (simp add: parse_equipment_line_def)
next
  case (Some m)
  define name where "name = strip (group m 2)"
  have "e \<in> set (case html of None \<Rightarrow> []
                    | Some h \<Rightarrow> if h = [] then [] else link_entries d ctry name h) \<or>
        e \<in> set (text_entries d ctry name line) \<or>
        e \<in> set (fallback_entries d ctry name (int_of_digits (group m 1)))"
    using assms unfolding parse_cases[OF Some] name_def Let_def
    by (auto split: if_splits)
  then have "e \<in> set (link_entries d ctry name (the html)) \<or>
        e \<in> set (text_entries d ctry name line) \<or>
        e \<in> set (fallback_entries d ctry name (int_of_digits (group m 1)))"
    by (auto split: option.splits if_splits)
  then have "status e \<in> set status_words \<and> country e = lower ctry \<and> equipment_type e = name \<and>
         date_recorded e = Some d"
    using link_entries_mem text_entries_mem fallback_entries_mem by blast
  with Some show ?thesis by (simp add: name_def)
qed

lemma ex_bmp:
  "parse_equipment_line d ''2 BMP-1: (1, captured)'' ctry cat None =
     [\<lparr>country = lower ctry, equipment_type = ''BMP-1'', status = ''captured'', url = None,
       date_recorded = Some d\<rparr>]"
  by code_simp

lemma ex_tanks:
  "parse_equipment_line d ''5 Tanks:'' ctry cat None =
     replicate 5 \<lparr>country = lower ctry, equipment_type = ''Tanks'', status = ''destroyed'',
       url = None, date_recorded = Some d\<rparr>"
  by code_simp

lemma ex_t64:
  "parse_equipment_line d ''3 T-64: (1, destroyed) (2, destroyed)'' ctry cat None =
     replicate 2 \<lparr>country = lower ctry, equipment_type = ''T-64'', status = ''destroyed'',
       url = None, date_recorded = Some d\<rparr>"
  by code_simp

lemma ex_anchor_abs:
  "link_entries d ctry name ''<a href=\"http://x/1\">(1, damaged)</a>'' =
     [\<lparr>country = lower ctry, equipment_type = name, status = ''damaged'',
       url = Some ''http://x/1'', date_recorded = Some d\<rparr>]"
  by code_simp

lemma ex_anchor_rel:
  "link_entries d ctry name ''<a href=\"/x/1\">(1, damaged)</a>'' =
     [\<lparr>country = lower ctry, equipment_type = name, status = ''damaged'',
       url = None, date_recorded = Some d\<rparr>]"
  by code_simp

lemma ex_match_bmp:
  "re_match item_pattern (strip ''2 BMP-1: (1, captured)'') = Some [1 \<mapsto> ''2'', 2 \<mapsto> ''BMP-1'']"
  by (simp add: re_match_def item_pattern_def Plus_def LazyPlus_def is_digit_def is_space_def
      strip_def)

section \<open>Facts about the grouping loops\<close>

lemma daily_grouped_eq:
  "daily_grouped current_date grouped es = count_loop (daily_key current_date) grouped es"
  by (induction es arbitrary: grouped) (simp_all add: Let_def split: option.splits)

lemma totals_grouped_eq:
  "totals_grouped grouped es = count_loop totals_key grouped es"
  by (induction es arbitrary: grouped) (simp_all add: Let_def split: option.splits)

lemma status_words_set:
  "w \<in> set status_words \<longleftrightarrow>
   w = ''destroyed'' \<or> w = ''captured'' \<or> w = ''abandoned'' \<or> w = ''damaged''"
  by (auto simp: status_words_def)

lemma tally_append:
  "tally key (es @ [e]) k w = tally key es k w + (if key e = k \<and> status e = w then 1 else 0)"
  by (simp add: tally_def)

lemma counts_for_unseen:
  "k \<notin> key ` set es \<Longrightarrow> counts_for key es k = default_counts"
proof -
  assume "k \<notin> key ` set es"
  then have "\<And>w. filter (\<lambda>e. key e = k \<and> status e = w) es = []"
    by (auto simp: filter_empty_conv)
  then show ?thesis by (simp add: counts_for_def tally_def default_counts_def)
qed

lemma map_of_counts_for:
  "map_of (counts_for key es k) w =
   (if w \<in> set status_words then Some (tally key es k w) else None)"
  by (auto simp: counts_for_def status_words_set)

lemma counts_for_other:
  "key e \<noteq> k \<Longrightarrow> counts_for key (es @ [e]) k = counts_for key es k"
  by (simp add: counts_for_def tally_append)

lemma counts_for_bump:
  "status e \<in> set status_words \<Longrightarrow>
   AList.update (status e) (tally key es (key e) (status e) + 1) (counts_for key es (key e)) =
   counts_for key (es @ [e]) (key e)"
  unfolding status_words_set
  by (elim disjE) (simp_all add: counts_for_def tally_append)

lemma grouped_inv_counts:
  assumes "grouped_inv key G seen"
  shows "(case map_of G k of None \<Rightarrow> default_counts | Some c \<Rightarrow> c) = counts_for key seen k"
  using assms by (simp add: grouped_inv_def counts_for_unseen)

lemma grouped_inv_step:
  assumes inv: "grouped_inv key G seen" and ok: "status e \<in> set status_words"
  shows "grouped_inv key
           (AList.update (key e)
              (AList.update (status e) (tally key seen (key e) (status e) + 1)
                 (counts_for key seen (key e))) G)
           (seen @ [e])"
proof -
  have d: "distinct (map fst G)" using inv by (simp add: grouped_inv_def)
  have m: "\<And>k. map_of G k = (if k \<in> key ` set seen then Some (counts_for key seen k) else None)"
    using inv by (simp add: grouped_inv_def)
  show ?thesis
    unfolding grouped_inv_def
  proof (intro conjI allI)
    show "distinct (map fst (AList.update (key e)
              (AList.update (status e) (tally key seen (key e) (status e) + 1)
                 (counts_for key seen (key e))) G))"
      using d by (rule distinct_update)
  next
    fix k
    show "map_of (AList.update (key e)
              (AList.update (status e) (tally key seen (key e) (status e) + 1)
                 (counts_for key seen (key e))) G) k =
          (if k \<in> key ` set (seen @ [e]) then Some (counts_for key (seen @ [e]) k) else None)"
    proof (cases "k = key e")
      case True
      then show ?thesis by (simp add: update_conv' counts_for_bump[OF ok])
    next
      case False
      then have "counts_for key (seen @ [e]) k = counts_for key seen k"
        by (simp add: counts_for_other)
      with False show ?thesis by (simp add: update_conv' m)
    qed
  qed
qed

lemma count_loop_Inr:
  assumes "grouped_inv key G seen" and "count_loop key G es = Inr G'"
  shows "grouped_inv key G' (seen @ es) \<and> (\<forall>e\<in>set es. status e \<in> set status_words)"
  using assms
proof (induction es arbitrary: G seen)
  case Nil
  then show ?case by simp
next
  case (Cons e es)
  have c: "(case map_of G (key e) of None \<Rightarrow> default_counts | Some c \<Rightarrow> c) =
      counts_for key seen (key e)"
    using Cons.prems(1) by (rule grouped_inv_counts)
  show ?case
  proof (cases "status e \<in> set status_words")
    case True
    then have n: "map_of (counts_for key seen (key e)) (status e) =
        Some (tally key seen (key e) (status e))"
      by (simp add: map_of_counts_for)
    from Cons.prems(2) have r: "count_loop key
        (AList.update (key e)
              (AList.update (status e) (tally key seen (key e) (status e) + 1)
                 (counts_for key seen (key e))) G) es = Inr G'"
      by (simp add: c n)
    from Cons.IH[OF grouped_inv_step[OF Cons.prems(1) True] r] True
    show ?thesis by simp
  next
    case False
    then have "map_of (counts_for key seen (key e)) (status e) = None"
      by (simp add: map_of_counts_for)
    with Cons.prems(2) show ?thesis by (simp add: c)
  qed
qed

lemma count_loop_total:
  assumes "grouped_inv key G seen" and "\<forall>e\<in>set es. status e \<in> set status_words"
  shows "\<exists>G'. count_loop key G es = Inr G'"
  using assms
proof (induction es arbitrary: G seen)
  case Nil
  then show ?case by simp
next
  case (Cons e es)
  have c: "(case map_of G (key e) of None \<Rightarrow> default_counts | Some c \<Rightarrow> c) =
      counts_for key seen (key e)"
    using Cons.prems(1) by (rule grouped_inv_counts)
  from Cons.prems(2) have ok: "status e \<in> set status_words" by simp
  then have n: "map_of (counts_for key seen (key e)) (status e) =
      Some (tally key seen (key e) (status e))"
    by (simp add: map_of_counts_for)
  from Cons.prems(2) have rest: "\<forall>e\<in>set es. status e \<in> set status_words" by simp
  from Cons.IH[OF grouped_inv_step[OF Cons.prems(1) ok] rest]
  show ?case by (simp add: c n)
qed

lemma count_loop_Inl:
  assumes "grouped_inv key G seen" and "count_loop key G es = Inl err"
  shows "\<exists>e\<in>set es. status e \<notin> set status_words \<and> err = KeyError (status e)"
  using assms
proof (induction es arbitrary: G seen)
  case Nil
  then show ?case by simp
next
  case (Cons e es)
  have c: "(case map_of G (key e) of None \<Rightarrow> default_counts | Some c \<Rightarrow> c) =
      counts_for key seen (key e)"
    using Cons.prems(1) by (rule grouped_inv_counts)
  show ?case
  proof (cases "status e \<in> set status_words")
    case True
    then have n: "map_of (counts_for key seen (key e)) (status e) =
        Some (tally key seen (key e) (status e))"
      by (simp add: map_of_counts_for)
    from Cons.prems(2) have r: "count_loop key
        (AList.update (key e)
              (AList.update (status e) (tally key seen (key e) (status e) + 1)
                 (counts_for key seen (key e))) G) es = Inl err"
      by (simp add: c n)
    from Cons.IH[OF grouped_inv_step[OF Cons.prems(1) True] r]
    show ?thesis by auto
  next
    case False
    then have "map_of (counts_for key seen (key e)) (status e) = None"
      by (simp add: map_of_counts_for)
    with Cons.prems(2) False show ?thesis by (simp add: c)
  qed
qed

lemma grouped_inv_empty: "grouped_inv key [] []"
  by (simp add: grouped_inv_def)

lemma tally_sum:
  "\<forall>e\<in>set es. status e \<in> set status_words \<Longrightarrow>
   tally key es k ''destroyed'' + tally key es k ''abandoned'' + tally key es k ''captured'' +
   tally key es k ''damaged'' = int (length (filter (\<lambda>e. key e = k) es))"
proof (induction es)
  case Nil
  then show ?case by (simp add: tally_def)
next
  case (Cons e es)
  then have IH: "tally key es k ''destroyed'' + tally key es k ''abandoned'' +
      tally key es k ''captured'' + tally key es k ''damaged'' =
      int (length (filter (\<lambda>e. key e = k) es))"
    by simp
  from Cons.prems have "status e = ''destroyed'' \<or> status e = ''captured'' \<or>
      status e = ''abandoned'' \<or> status e = ''damaged''"
    by (simp add: status_words_set)
  then show ?case using IH by (elim disjE) (simp_all add: tally_def)
qed

lemma tally_mset:
  assumes "mset es = mset es'"
  shows "tally key es k w = tally key es' k w"
proof -
  have "mset (filter (\<lambda>e. key e = k \<and> status e = w) es) =
        mset (filter (\<lambda>e. key e = k \<and> status e = w) es')"
    by (simp add: assms)
  then have "length (filter (\<lambda>e. key e = k \<and> status e = w) es) =
        length (filter (\<lambda>e. key e = k \<and> status e = w) es')"
    by (rule mset_eq_length)
  then show ?thesis by (simp add: tally_def)
qed

lemma grouped_inv_mem:
  assumes "grouped_inv key G es" and "(k, c) \<in> set G"
  shows "c = counts_for key es k \<and> k \<in> key ` set es"
proof -
  from assms(1) have d: "distinct (map fst G)" by (simp add: grouped_inv_def)
  from d assms(2) have "map_of G k = Some c" by (rule map_of_is_SomeI)
  moreover from assms(1) have
    "map_of G k = (if k \<in> key ` set es then Some (counts_for key es k) else None)"
    by (simp add: grouped_inv_def)
  ultimately show ?thesis by (simp split: if_splits)
qed

lemma grouped_inv_mset:
  assumes "grouped_inv key G es" and "grouped_inv key G' es'" and "mset es = mset es'"
  shows "mset G = mset G'"
proof -
  from assms(3) have s: "set es = set es'" by (rule mset_eq_setD)
  have c: "\<And>k. counts_for key es k = counts_for key es' k"
    by (simp add: counts_for_def tally_mset[OF assms(3)])
  have "map_of G = map_of G'"
    using assms(1,2) by (auto simp: grouped_inv_def s c)
  moreover have d: "distinct (map fst G)" "distinct (map fst G')"
    using assms(1,2) by (simp_all add: grouped_inv_def)
  ultimately have "set G = set G'" by (simp add: map_of_inject_set)
  moreover have "distinct G" "distinct G'" using d by (simp_all add: distinct_map)
  ultimately show ?thesis by (simp add: set_eq_iff_mset_eq_distinct)
qed

lemma daily_rows:
  assumes "generate_daily_count_csv current_date es = Inr rows"
  shows "\<exists>G. rows = map daily_row_of G \<and> grouped_inv (daily_key current_date) G es"
proof -
  from assms obtain G where g: "count_loop (daily_key current_date) [] es = Inr G"
    and r: "rows = map daily_row_of G"
    by (auto simp: generate_daily_count_csv_def daily_grouped_eq split: sum.splits)
  from count_loop_Inr[OF grouped_inv_empty g] r show ?thesis by auto
qed

lemma totals_rows:
  assumes "generate_totals_by_type_csv es = Inr rows"
  shows "\<exists>G. rows = map totals_row_of G \<and> grouped_inv totals_key G es"
proof -
  from assms obtain G where g: "count_loop totals_key [] es = Inr G"
    and r: "rows = map totals_row_of G"
    by (auto simp: generate_totals_by_type_csv_def totals_grouped_eq split: sum.splits)
  from count_loop_Inr[OF grouped_inv_empty g] r show ?thesis by auto
qed

lemma statuses_ok:
  assumes "count_loop key [] es = Inr G"
  shows "\<forall>e\<in>set es. status e \<in> set status_words"
  using count_loop_Inr[OF grouped_inv_empty assms] by simp

lemma daily_row_of_counts_for:
  "daily_row_of (k, counts_for key es k) =
     \<lparr>row_country = fst k, row_equipment_type = fst (snd k),
      row_destroyed = tally key es k ''destroyed'', row_abandoned = tally key es k ''abandoned'',
      row_captured = tally key es k ''captured'', row_damaged = tally key es k ''damaged'',
      row_type_total = tally key es k ''destroyed'' + tally key es k ''abandoned'' +
                       tally key es k ''captured'' + tally key es k ''damaged'',
      row_date_recorded = snd (snd k)\<rparr>"
  by (simp add: daily_row_of_def counts_for_def count_of_def Let_def)

lemma totals_row_of_counts_for:
  "totals_row_of (k, counts_for key es k) =
     \<lparr>tot_country = fst k, tot_type = snd k,
      tot_destroyed = tally key es k ''destroyed'', tot_abandoned = tally key es k ''abandoned'',
      tot_captured = tally key es k ''captured'', tot_damaged = tally key es k ''damaged'',
      tot_total = tally key es k ''destroyed'' + tally key es k ''abandoned'' +
                  tally key es k ''captured'' + tally key es k ''damaged''\<rparr>"
  by (simp add: totals_row_of_def counts_for_def count_of_def Let_def)

lemma daily_row_sound:
  assumes "generate_daily_count_csv current_date es = Inr rows" and "row \<in> set rows"
  shows "row_type_total row =
           row_destroyed row + row_abandoned row + row_captured row + row_damaged row \<and>
         row_type_total row = int (length (filter (\<lambda>e. daily_key current_date e =
           (row_country row, row_equipment_type row, row_date_recorded row)) es))"
proof -
  from daily_rows[OF assms(1)] obtain G where r: "rows = map daily_row_of G"
    and inv: "grouped_inv (daily_key current_date) G es"
    by blast
  from assms(2) r obtain k c where kc: "(k, c) \<in> set G" and row: "row = daily_row_of (k, c)"
    by auto
  from grouped_inv_mem[OF inv kc] have c: "c = counts_for (daily_key current_date) es k"
    by simp
  from assms(1) have "\<exists>G. count_loop (daily_key current_date) [] es = Inr G"
    by (auto simp: generate_daily_count_csv_def daily_grouped_eq split: sum.splits)
  then have ok: "\<forall>e\<in>set es. status e \<in> set status_words"
    using statuses_ok by blast
  show ?thesis
    unfolding row c daily_row_of_counts_for
    using tally_sum[OF ok, of "daily_key current_date" k] by simp
qed

lemma totals_row_sound:
  assumes "generate_totals_by_type_csv es = Inr rows" and "row \<in> set rows"
  shows "tot_total row = tot_destroyed row + tot_abandoned row + tot_captured row + tot_damaged row \<and>
         tot_total row = int (length (filter (\<lambda>e. totals_key e = (tot_country row, tot_type row)) es))"
proof -
  from totals_rows[OF assms(1)] obtain G where r: "rows = map totals_row_of G"
    and inv: "grouped_inv totals_key G es"
    by blast
  from assms(2) r obtain k c where kc: "(k, c) \<in> set G" and row: "row = totals_row_of (k, c)"
    by auto
  from grouped_inv_mem[OF inv kc] have c: "c = counts_for totals_key es k"
    by simp
  from assms(1) have "\<exists>G. count_loop totals_key [] es = Inr G"
    by (auto simp: generate_totals_by_type_csv_def totals_grouped_eq split: sum.splits)
  then have ok: "\<forall>e\<in>set es. status e \<in> set status_words"
    using statuses_ok by blast
  show ?thesis
    unfolding row c totals_row_of_counts_for
    using tally_sum[OF ok, of totals_key k] by simp
qed

lemma daily_total:
  "(\<exists>rows. generate_daily_count_csv current_date es = Inr rows) \<longleftrightarrow>
   (\<forall>e\<in>set es. status e \<in> set status_words)"
proof
  assume "\<exists>rows. generate_daily_count_csv current_date es = Inr rows"
  then have "\<exists>G. count_loop (daily_key current_date) [] es = Inr G"
    by (auto simp: generate_daily_count_csv_def daily_grouped_eq split: sum.splits)
  then show "\<forall>e\<in>set es. status e \<in> set status_words" using statuses_ok by blast
next
  assume "\<forall>e\<in>set es. status e \<in> set status_words"
  from count_loop_total[where key = "daily_key current_date", OF grouped_inv_empty this]
  obtain G' where "count_loop (daily_key current_date) [] es = Inr G'" by blast
  then show "\<exists>rows. generate_daily_count_csv current_date es = Inr rows"
    by (simp add: generate_daily_count_csv_def daily_grouped_eq)
qed

lemma totals_total:
  "(\<exists>rows. generate_totals_by_type_csv es = Inr rows) \<longleftrightarrow>
   (\<forall>e\<in>set es. status e \<in> set status_words)"
proof
  assume "\<exists>rows. generate_totals_by_type_csv es = Inr rows"
  then have "\<exists>G. count_loop totals_key [] es = Inr G"
    by (auto simp: generate_totals_by_type_csv_def totals_grouped_eq split: sum.splits)
  then show "\<forall>e\<in>set es. status e \<in> set status_words" using statuses_ok by blast
next
  assume "\<forall>e\<in>set es. status e \<in> set status_words"
  from count_loop_total[where key = totals_key, OF grouped_inv_empty this]
  obtain G' where "count_loop totals_key [] es = Inr G'" by blast
  then show "\<exists>rows. generate_totals_by_type_csv es = Inr rows"
    by (simp add: generate_totals_by_type_csv_def totals_grouped_eq)
qed

lemma daily_perm:
  assumes "mset es = mset es'" and "generate_daily_count_csv current_date es = Inr rows"
  shows "\<exists>rows'. generate_daily_count_csv current_date es' = Inr rows' \<and> mset rows' = mset rows"
proof -
  from daily_rows[OF assms(2)] obtain G where r: "rows = map daily_row_of G"
    and inv: "grouped_inv (daily_key current_date) G es"
    by blast
  from assms(2) have "\<forall>e\<in>set es. status e \<in> set status_words"
    using daily_total by blast
  moreover from assms(1) have "set es = set es'" by (rule mset_eq_setD)
  ultimately have "\<forall>e\<in>set es'. status e \<in> set status_words" by simp
  then obtain rows' where g': "generate_daily_count_csv current_date es' = Inr rows'"
    using daily_total by blast
  from daily_rows[OF g'] obtain G' where r': "rows' = map daily_row_of G'"
    and inv': "grouped_inv (daily_key current_date) G' es'"
    by blast
  from grouped_inv_mset[OF inv inv' assms(1)] have "mset rows' = mset rows"
    unfolding r r' by simp
  with g' show ?thesis by blast
qed

lemma totals_perm:
  assumes "mset es = mset es'" and "generate_totals_by_type_csv es = Inr rows"
  shows "\<exists>rows'. generate_totals_by_type_csv es' = Inr rows' \<and> mset rows' = mset rows"
proof -
  from totals_rows[OF assms(2)] obtain G where r: "rows = map totals_row_of G"
    and inv: "grouped_inv totals_key G es"
    by blast
  from assms(2) have "\<forall>e\<in>set es. status e \<in> set status_words"
    using totals_total by blast
  moreover from assms(1) have "set es = set es'" by (rule mset_eq_setD)
  ultimately have "\<forall>e\<in>set es'. status e \<in> set status_words" by simp
  then obtain rows' where g': "generate_totals_by_type_csv es' = Inr rows'"
    using totals_total by blast
  from totals_rows[OF g'] obtain G' where r': "rows' = map totals_row_of G'"
    and inv': "grouped_inv totals_key G' es'"
    by blast
  from grouped_inv_mset[OF inv inv' assms(1)] have "mset rows' = mset rows"
    unfolding r r' by simp
  with g' show ?thesis by blast
qed

section \<open>The report tables\<close>

lemma example_daily:
  "generate_daily_count_csv ''2024-01-01'' example_entries = Inr example_daily_rows"
  by code_simp

lemma example_daily_rotated:
  "generate_daily_count_csv ''2024-01-01'' (rotate1 example_entries) =
     Inr (rev example_daily_rows)"
  by code_simp

lemma example_rotated: "mset example_entries = mset (rotate1 example_entries)"
  by (simp add: example_entries_def)

lemma example_totals:
  "generate_totals_by_type_csv example_entries = Inr example_totals_rows"
  by code_simp

lemma example_statuses: "list_all (\<lambda>e. status e \<in> set status_words) example_entries"
  by code_simp

text \<open>
  C6. In every row that \<open>generate_daily_count_csv\<close> produces, \<open>type_total\<close> is the sum of
  the row's four status counts and the number of entries that have the row's key (country,
  equipment type, date); likewise \<open>total\<close> in every row of \<open>generate_totals_by_type_csv\<close>,
  with the key (country, equipment type). Rows are produced exactly when every entry has
  one of the four statuses; otherwise the function raises \<open>KeyError\<close>.
\<close>

theorem totals_are_sums_and_counts:
  "(generate_daily_count_csv current_date es = Inr rows \<longrightarrow>
      (\<forall>row\<in>set rows.
         row_type_total row =
           row_destroyed row + row_abandoned row + row_captured row + row_damaged row \<and>
         row_type_total row = int (length (filter (\<lambda>e. daily_key current_date e =
           (row_country row, row_equipment_type row, row_date_recorded row)) es)))) \<and>
   (generate_totals_by_type_csv es = Inr trows \<longrightarrow>
      (\<forall>row\<in>set trows.
         tot_total row =
           tot_destroyed row + tot_abandoned row + tot_captured row + tot_damaged row \<and>
         tot_total row = int (length (filter (\<lambda>e. totals_key e =
           (tot_country row, tot_type row)) es)))) \<and>
   ((\<forall>e\<in>set es. status e \<in> set status_words) \<longrightarrow>
      (\<exists>rows. generate_daily_count_csv current_date es = Inr rows) \<and>
      (\<exists>trows. generate_totals_by_type_csv es = Inr trows))"
  using daily_row_sound[of current_date es rows] totals_row_sound[of es trows]
    daily_total[of current_date es] totals_total[of es]
  by blast

text \<open>The theorem at three entries of two keys, one of them without a date.\<close>

theorem totals_are_sums_and_counts_witness:
  "generate_daily_count_csv ''2024-01-01'' example_entries = Inr example_daily_rows \<and>
   generate_totals_by_type_csv example_entries = Inr example_totals_rows \<and>
   list_all (\<lambda>row. row_type_total row =
       row_destroyed row + row_abandoned row + row_captured row + row_damaged row \<and>
       row_type_total row = int (length (filter (\<lambda>e. daily_key ''2024-01-01'' e =
         (row_country row, row_equipment_type row, row_date_recorded row)) example_entries)))
     example_daily_rows \<and>
   list_all (\<lambda>row. tot_total row =
       tot_destroyed row + tot_abandoned row + tot_captured row + tot_damaged row \<and>
       tot_total row = int (length (filter (\<lambda>e. totals_key e =
         (tot_country row, tot_type row)) example_entries)))
     example_totals_rows"
  using totals_are_sums_and_counts[of "''2024-01-01''" example_entries example_daily_rows
      example_totals_rows] example_daily example_totals
  by (auto simp: list_all_iff)

text \<open>
  C7. Reordering the entries does not change the aggregation: for a permutation of the
  list, both functions produce the same rows, up to the order of the rows (every key has
  one row, with the same counts and the same total), and they raise for the one list
  exactly when they raise for the other.
\<close>

theorem aggregation_permutation_invariant:
  assumes "mset es = mset es'"
  shows "(\<forall>rows. generate_daily_count_csv current_date es = Inr rows \<longrightarrow>
            (\<exists>rows'. generate_daily_count_csv current_date es' = Inr rows' \<and>
                     mset rows' = mset rows)) \<and>
         (\<forall>rows. generate_totals_by_type_csv es = Inr rows \<longrightarrow>
            (\<exists>rows'. generate_totals_by_type_csv es' = Inr rows' \<and> mset rows' = mset rows)) \<and>
         (isl (generate_daily_count_csv current_date es) \<longleftrightarrow>
            isl (generate_daily_count_csv current_date es')) \<and>
         (isl (generate_totals_by_type_csv es) \<longleftrightarrow> isl (generate_totals_by_type_csv es'))"
proof -
  from assms have s: "set es = set es'" by (rule mset_eq_setD)
  have d: "isl (generate_daily_count_csv current_date es) \<longleftrightarrow>
      isl (generate_daily_count_csv current_date es')"
    using daily_total[of current_date es] daily_total[of current_date es'] s
    by (cases "generate_daily_count_csv current_date es";
        cases "generate_daily_count_csv current_date es'") auto
  have t: "isl (generate_totals_by_type_csv es) \<longleftrightarrow> isl (generate_totals_by_type_csv es')"
    using totals_total[of es] totals_total[of es'] s
    by (cases "generate_totals_by_type_csv es"; cases "generate_totals_by_type_csv es'") auto
  show ?thesis
    using daily_perm[OF assms] totals_perm[OF assms] d t by blast
qed

text \<open>The theorem at the example entries and their rotation, whose rows come out reversed.\<close>

theorem aggregation_permutation_invariant_witness:
  "mset example_entries = mset (rotate1 example_entries) \<and>
   generate_daily_count_csv ''2024-01-01'' example_entries = Inr example_daily_rows \<and>
   generate_daily_count_csv ''2024-01-01'' (rotate1 example_entries) =
     Inr (rev example_daily_rows) \<and>
   mset (rev example_daily_rows) = mset example_daily_rows"
  using aggregation_permutation_invariant[of example_entries "rotate1 example_entries"
      "''2024-01-01''", OF example_rotated] example_daily example_daily_rotated example_rotated
  by simp

section \<open>The two implementations agree\<close>

lemma scraper_daily_grouped_eq:
  "scraper_daily_grouped current_date grouped es = daily_grouped current_date grouped es"
  by (induction es arbitrary: grouped)
     (simp_all add: daily_key_def date_or_def default_counts_def Let_def split: option.splits)

text \<open>
  C10. The parsing and aggregation code of \<open>scraper.py\<close> and of
  \<open>oryx_wat_scraper/client.py\<close> compute the same functions: for every line, country,
  category, optional markup and observed date the two \<open>parse_equipment_line\<close> return the
  same list of entries, and for every list of entries the two
  \<open>generate_daily_count_csv\<close> return the same rows (or raise the same error).
\<close>

theorem implementations_agree:
  "scraper_parse_equipment_line current_date line ctry category html_line =
     parse_equipment_line current_date line ctry category html_line \<and>
   scraper_generate_daily_count_csv current_date es = generate_daily_count_csv current_date es"
proof
  show "scraper_parse_equipment_line current_date line ctry category html_line =
     parse_equipment_line current_date line ctry category html_line"
    unfolding scraper_parse_equipment_line_def parse_equipment_line_def link_entries_def
      text_entries_def fallback_entries_def item_pattern_def link_pattern_def
      status_pattern_def status_alt_def status_words_def number_pattern_def
      findall_count_def list.map
    by (rule refl)
  show "scraper_generate_daily_count_csv current_date es = generate_daily_count_csv current_date es"
    unfolding scraper_generate_daily_count_csv_def generate_daily_count_csv_def
      scraper_daily_grouped_eq daily_row_of_def Let_def
    by (rule refl)
qed

end
